theory Spec2Isabelle
  imports Complex_Main "HOL-Library.Word"
begin

section \<open>The object graph of \<^verbatim>\<open>src/app/node/node.cpp\<close>\<close>

text \<open>
  Nodes, parameters and edges are heap objects reached through pointers. The store keeps,
  for every pointer, what the accessors used by \<^verbatim>\<open>node.cpp\<close> return:
  \<^item> \<open>children\<close>: \<^verbatim>\<open>QObject::children()\<close> of a Node, which \<^verbatim>\<open>Node::parameters()\<close> casts to
    a list of NodeParam (``there should be no children that are not NodeParams'');
  \<^item> \<open>ptype\<close>, \<open>pid\<close>, \<open>pedges\<close>: \<^verbatim>\<open>NodeParam::type()\<close>, \<^verbatim>\<open>id()\<close>, \<^verbatim>\<open>edges()\<close>;
  \<^item> \<open>pparent\<close>: \<^verbatim>\<open>NodeParam::parent()\<close>, the owning Node, \<open>None\<close> for a null parent;
  \<^item> \<open>einput\<close>, \<open>eoutput\<close>: \<^verbatim>\<open>NodeEdge::input()\<close> and \<^verbatim>\<open>NodeEdge::output()\<close>.
\<close>

type_synonym node = nat
type_synonym param = nat
type_synonym edge = nat

datatype ParamType = kInput | kOutput

record store =
  children :: "node \<Rightarrow> param list"
  ptype :: "param \<Rightarrow> ParamType"
  pid :: "param \<Rightarrow> string"
  pedges :: "param \<Rightarrow> edge list"
  pparent :: "param \<Rightarrow> node option"
  einput :: "edge \<Rightarrow> param"
  eoutput :: "edge \<Rightarrow> param"

text \<open>
  What can stop a call from returning normally: the recursion budget is used up (the
  traversals have no cycle guard, so on a cyclic graph the C++ recursion never ends), a member
  function is called through a null \<^verbatim>\<open>parent()\<close>, or \<^verbatim>\<open>Q_ASSERT\<close> fails.
\<close>

datatype error = StackExhausted | NullPointer | AssertionFailed

text \<open>\<^verbatim>\<open>Node::parameters()\<close>: the children, cast to NodeParam.\<close>

definition parameters :: "store \<Rightarrow> node \<Rightarrow> param list" where
  "parameters g n = children g n"

text \<open>
  A loop over a list whose body may fail: \<^verbatim>\<open>foreach (x, xs) { ... }\<close> and the index loops
  \<^verbatim>\<open>for (int i=0;i<xs.size();i++)\<close>, threading the state the body updates. The list is the
  one found when the loop is entered. Qt's \<^verbatim>\<open>foreach\<close> iterates over a copy, and
  \<^verbatim>\<open>InvalidateCache\<close> copies \<^verbatim>\<open>parameters()\<close> first; its inner loop asks for
  \<^verbatim>\<open>param->edges()\<close> again at every step, and gets the same list, since no step writes
  to the store (this is claim C9 below).
\<close>

fun foreach :: "'a list \<Rightarrow> ('a \<Rightarrow> 's \<Rightarrow> error + 's) \<Rightarrow> 's \<Rightarrow> error + 's" where
  "foreach [] body s = Inr s"
| "foreach (x # xs) body s =
     (case body x s of Inl err \<Rightarrow> Inl err | Inr s' \<Rightarrow> foreach xs body s')"

subsection \<open>\<^verbatim>\<open>GetDependenciesInternal\<close> and \<^verbatim>\<open>Node::GetDependencies\<close>\<close>

text \<open>
  The first argument bounds the depth of the recursion; the C++ function has no such bound,
  and a call that needs more depth than any budget gives is a call that never returns.
  The QList passed by reference is the threaded state.
\<close>

primrec GetDependenciesInternal :: "nat \<Rightarrow> store \<Rightarrow> node \<Rightarrow> node list \<Rightarrow> error + node list" where
  "GetDependenciesInternal 0 g n list = Inl StackExhausted"
| "GetDependenciesInternal (Suc fuel) g n list =
     foreach (parameters g n) (\<lambda>p list.
       if ptype g p = kInput then
         foreach (pedges g p) (\<lambda>edge list.
           case pparent g (eoutput g edge) of
             None \<Rightarrow> Inl NullPointer
           | Some connected_node \<Rightarrow>
               GetDependenciesInternal fuel g connected_node (list @ [connected_node])) list
       else Inr list) list"

definition GetDependencies :: "nat \<Rightarrow> store \<Rightarrow> node \<Rightarrow> error + node list" where
  "GetDependencies fuel g n = GetDependenciesInternal fuel g n []"

subsection \<open>\<^verbatim>\<open>Node::InvalidateCache\<close>\<close>

text \<open>
  The world is the store together with the record of the calls
  \<^verbatim>\<open>...->parent()->InvalidateCache(start_range, end_range)\<close> issued at line 67, in the order
  they are issued: the receiving node and the two arguments. The store is read from the
  current world at every access, as the C++ reads the live objects.
\<close>

record world =
  heap :: store
  calls :: "(node \<times> rat \<times> rat) list"

primrec InvalidateCache :: "nat \<Rightarrow> node \<Rightarrow> rat \<Rightarrow> rat \<Rightarrow> world \<Rightarrow> error + world" where
  "InvalidateCache 0 n start_range end_range w = Inl StackExhausted"
| "InvalidateCache (Suc fuel) n start_range end_range w =
     foreach (parameters (heap w) n) (\<lambda>param w.
       if ptype (heap w) param = kOutput then
         foreach (pedges (heap w) param) (\<lambda>edge w.
           case pparent (heap w) (einput (heap w) edge) of
             None \<Rightarrow> Inl NullPointer
           | Some target \<Rightarrow>
               InvalidateCache fuel target start_range end_range
                 (w\<lparr>calls := calls w @ [(target, start_range, end_range)]\<rparr>)) w
       else Inr w) w"

subsection \<open>\<^verbatim>\<open>Node::HasParamWithID\<close> and \<^verbatim>\<open>Node::AddParameter\<close>\<close>

fun has_id_loop :: "store \<Rightarrow> param list \<Rightarrow> string \<Rightarrow> bool" where
  "has_id_loop g [] i = False"
| "has_id_loop g (p # ps) i = (if pid g p = i then True else has_id_loop g ps i)"

definition HasParamWithID :: "store \<Rightarrow> node \<Rightarrow> string \<Rightarrow> bool" where
  "HasParamWithID g n i = has_id_loop g (parameters g n) i"

text \<open>
  \<^verbatim>\<open>QObject::setParent\<close> (Qt): nothing happens when the object already has that parent;
  otherwise the object leaves the child list of its old parent, if it has one, and is appended
  to the child list of the new one.
\<close>

definition setParent :: "store \<Rightarrow> param \<Rightarrow> node \<Rightarrow> store" where
  "setParent g p n =
     (if pparent g p = Some n then g
      else g\<lparr>children := (\<lambda>m. if m = n then children g m @ [p]
                               else if pparent g p = Some m then removeAll p (children g m)
                               else children g m),
             pparent := (pparent g)(p := Some n)\<rparr>)"

text \<open>
  \<^verbatim>\<open>Q_ASSERT\<close> aborts the program when its condition is false in a build with assertions
  (\<open>debug\<close>), and expands to nothing otherwise. The two \<^verbatim>\<open>connect\<close> calls forward signals and
  leave the store alone.
\<close>

definition AddParameter :: "bool \<Rightarrow> store \<Rightarrow> node \<Rightarrow> param \<Rightarrow> error + store" where
  "AddParameter debug g n p =
     (if debug \<and> HasParamWithID g n (pid g p) then Inl AssertionFailed
      else Inr (setParent g p n))"

subsection \<open>The graph the traversals walk\<close>

text \<open>
  The edges the two nested loops of each traversal reach from a node, in the order the loops
  reach them: \<open>in_edges\<close> for \<^verbatim>\<open>GetDependenciesInternal\<close> (edges of the Input parameters),
  \<open>out_edges\<close> for \<^verbatim>\<open>InvalidateCache\<close> (edges of the Output parameters); and the node each
  such edge leads to.
\<close>

definition in_edges :: "store \<Rightarrow> node \<Rightarrow> edge list" where
  "in_edges g n = concat (map (pedges g) (filter (\<lambda>p. ptype g p = kInput) (parameters g n)))"

definition out_edges :: "store \<Rightarrow> node \<Rightarrow> edge list" where
  "out_edges g n = concat (map (pedges g) (filter (\<lambda>p. ptype g p = kOutput) (parameters g n)))"

definition edge_source :: "store \<Rightarrow> edge \<Rightarrow> node option" where
  "edge_source g e = pparent g (eoutput g e)"

definition edge_target :: "store \<Rightarrow> edge \<Rightarrow> node option" where
  "edge_target g e = pparent g (einput g e)"

definition upstream :: "store \<Rightarrow> node \<Rightarrow> node option list" where
  "upstream g n = map (edge_source g) (in_edges g n)"

definition downstream :: "store \<Rightarrow> node \<Rightarrow> node option list" where
  "downstream g n = map (edge_target g) (out_edges g n)"

text \<open>\<open>(m, n) \<in> dep_rel g\<close>: node \<open>n\<close> directly depends on \<open>m\<close>. \<open>inv_rel\<close> is the same for
  the forward direction: \<open>m\<close> directly consumes an output of \<open>n\<close>.\<close>

definition dep_rel :: "store \<Rightarrow> (node \<times> node) set" where
  "dep_rel g = {(m, n). Some m \<in> set (upstream g n)}"

definition inv_rel :: "store \<Rightarrow> (node \<times> node) set" where
  "inv_rel g = {(m, n). Some m \<in> set (downstream g n)}"

text \<open>A path is the list of edges it follows: backwards (input to output) for dependencies,
  forwards (output to input) for invalidation.\<close>

fun dep_path :: "store \<Rightarrow> node \<Rightarrow> edge list \<Rightarrow> node \<Rightarrow> bool" where
  "dep_path g n [] m = (n = m)"
| "dep_path g n (e # es) m =
     (e \<in> set (in_edges g n) \<and>
      (case edge_source g e of None \<Rightarrow> False | Some n' \<Rightarrow> dep_path g n' es m))"

fun inv_path :: "store \<Rightarrow> node \<Rightarrow> edge list \<Rightarrow> node \<Rightarrow> bool" where
  "inv_path g n [] m = (n = m)"
| "inv_path g n (e # es) m =
     (e \<in> set (out_edges g n) \<and>
      (case edge_target g e of None \<Rightarrow> False | Some n' \<Rightarrow> inv_path g n' es m))"

text \<open>The two measures of the bound on the length of the dependency list: the number of
  edges attached to the inputs of the graph, and the length of its longest dependency path.\<close>

definition graph_edges :: "store \<Rightarrow> edge set" where
  "graph_edges g = (\<Union>n. set (in_edges g n))"

definition longest_path :: "store \<Rightarrow> nat" where
  "longest_path g = Max {length es |es n m. dep_path g n es m}"

subsection \<open>Both traversals as one walk\<close>

text \<open>
  Auxiliary, for the proofs: the pre-order walk that both functions perform, over any
  successor function. \<open>walk_list f\<close> visits the successors in turn; \<open>f\<close> is the walk one level
  deeper.
\<close>

fun walk_list :: "('n \<Rightarrow> error + 'n list) \<Rightarrow> 'n option list \<Rightarrow> error + 'n list" where
  "walk_list f [] = Inr []"
| "walk_list f (None # r) = Inl NullPointer"
| "walk_list f (Some m # r) =
     (case f m of
        Inl err \<Rightarrow> Inl err
      | Inr xs \<Rightarrow> (case walk_list f r of Inl err \<Rightarrow> Inl err | Inr ys \<Rightarrow> Inr (m # xs @ ys)))"

primrec walk :: "nat \<Rightarrow> ('n \<Rightarrow> 'n option list) \<Rightarrow> 'n \<Rightarrow> error + 'n list" where
  "walk 0 nx n = Inl StackExhausted"
| "walk (Suc k) nx n = walk_list (walk k nx) (nx n)"

fun gpath :: "('n \<Rightarrow> 'e list) \<Rightarrow> ('e \<Rightarrow> 'n option) \<Rightarrow> 'n \<Rightarrow> 'e list \<Rightarrow> 'n \<Rightarrow> bool" where
  "gpath es tgt n [] m = (n = m)"
| "gpath es tgt n (e # r) m =
     (e \<in> set (es n) \<and> (case tgt e of None \<Rightarrow> False | Some n' \<Rightarrow> gpath es tgt n' r m))"

text \<open>The paths from \<open>n\<close> that end in a node satisfying \<open>P\<close>, and those among them that
  start with an edge of the list \<open>l\<close>.\<close>

definition paths_to ::
  "('n \<Rightarrow> 'e list) \<Rightarrow> ('e \<Rightarrow> 'n option) \<Rightarrow> ('n \<Rightarrow> bool) \<Rightarrow> 'n \<Rightarrow> 'e list set" where
  "paths_to es tgt P n = {r. \<exists>t. gpath es tgt n r t \<and> P t}"

definition paths_via ::
  "('n \<Rightarrow> 'e list) \<Rightarrow> ('e \<Rightarrow> 'n option) \<Rightarrow> ('n \<Rightarrow> bool) \<Rightarrow> 'e list \<Rightarrow> 'e list set" where
  "paths_via es tgt P l =
     {e # r |e r. e \<in> set l \<and> (\<exists>m. tgt e = Some m \<and> r \<in> paths_to es tgt P m)}"

definition tag_calls :: "rat \<Rightarrow> rat \<Rightarrow> node list \<Rightarrow> (node \<times> rat \<times> rat) list" where
  "tag_calls s e xs = map (\<lambda>m. (m, s, e)) xs"

subsection \<open>Example graphs\<close>

text \<open>The chain A \<rightarrow> B \<rightarrow> C: A = 0 has the output 0; B = 1 the input 1 and the output 2;
  C = 2 the input 3. Edge 0 joins parameter 0 to 1, edge 1 joins 2 to 3.\<close>

definition chain :: store where
  "chain = \<lparr>
     children = (\<lambda>_. [])(0 := [0], 1 := [1, 2], 2 := [3]),
     ptype = (\<lambda>_. kInput)(0 := kOutput, 2 := kOutput),
     pid = (\<lambda>_. ''in'')(0 := ''out'', 2 := ''out''),
     pedges = (\<lambda>_. [])(0 := [0], 1 := [0], 2 := [1], 3 := [1]),
     pparent = (\<lambda>_. None)(0 := Some 0, 1 := Some 1, 2 := Some 1, 3 := Some 2),
     einput = (\<lambda>_. 0)(0 := 1, 1 := 3),
     eoutput = (\<lambda>_. 0)(0 := 0, 1 := 2)\<rparr>"

text \<open>The diamond A \<rightarrow> B, A \<rightarrow> C, B \<rightarrow> D, C \<rightarrow> D: A = 0 has the output 0; B = 1 the input 1
  and the output 2; C = 2 the input 3 and the output 4; D = 3 the inputs 5 and 6.
  Edges: 0 joins 0 to 1, 1 joins 0 to 3, 2 joins 2 to 5, 3 joins 4 to 6.\<close>

definition diamond :: store where
  "diamond = \<lparr>
     children = (\<lambda>_. [])(0 := [0], 1 := [1, 2], 2 := [3, 4], 3 := [5, 6]),
     ptype = (\<lambda>_. kInput)(0 := kOutput, 2 := kOutput, 4 := kOutput),
     pid = (\<lambda>_. ''in'')(0 := ''out'', 2 := ''out'', 4 := ''out'', 5 := ''a'', 6 := ''b''),
     pedges = (\<lambda>_. [])(0 := [0, 1], 1 := [0], 2 := [2], 3 := [1], 4 := [3], 5 := [2], 6 := [3]),
     pparent = (\<lambda>_. None)(0 := Some 0, 1 := Some 1, 2 := Some 1, 3 := Some 2, 4 := Some 2,
                            5 := Some 3, 6 := Some 3),
     einput = (\<lambda>_. 0)(0 := 1, 1 := 3, 2 := 5, 3 := 6),
     eoutput = (\<lambda>_. 0)(0 := 0, 1 := 0, 2 := 2, 3 := 4)\<rparr>"

text \<open>The ladder: six nodes 0 .. 5 in a row; node \<open>n\<close> owns the parameters \<open>3n\<close> (input a),
  \<open>3n + 1\<close> (input b) and \<open>3n + 2\<close> (output). The output of each node \<open>n < 5\<close> feeds both
  inputs of node \<open>n + 1\<close>: edge \<open>2n\<close> into input a, edge \<open>2n + 1\<close> into input b. Ten edges,
  and no path longer than five.\<close>

definition ladder :: store where
  "ladder = \<lparr>
     children = (\<lambda>n. if n \<le> 5 then [3 * n, 3 * n + 1, 3 * n + 2] else []),
     ptype = (\<lambda>p. if p mod 3 = 2 then kOutput else kInput),
     pid = (\<lambda>p. if p mod 3 = 0 then ''a'' else if p mod 3 = 1 then ''b'' else ''out''),
     pedges = (\<lambda>p. if p mod 3 = 2
                     then (if p div 3 < 5 then [2 * (p div 3), 2 * (p div 3) + 1] else [])
                     else (if 1 \<le> p div 3 \<and> p div 3 \<le> 5 then [2 * (p div 3 - 1) + p mod 3]
                           else [])),
     pparent = (\<lambda>p. if p < 18 then Some (p div 3) else None),
     einput = (\<lambda>e. 3 * (e div 2 + 1) + e mod 2),
     eoutput = (\<lambda>e. 3 * (e div 2) + 2)\<rparr>"

section \<open>The deserialization linker of \<^verbatim>\<open>src/app/common/xmlutils.h\<close>\<close>

text \<open>
  The header declares the data; \<^verbatim>\<open>NodeInput\<close> (from \<^verbatim>\<open>node/param.h\<close>) and \<^verbatim>\<open>Item\<close> are declared
  elsewhere: the first is a type parameter here, the second a pointer. The field
  \<^verbatim>\<open>output\<close> of a connection is \<open>output_name\<close> here.
\<close>

type_synonym quintptr = "64 word"
type_synonym item = nat

record 'i SerializedConnection =
  input :: 'i
  output_node :: quintptr
  output_name :: string

record BlockLink =
  block :: node
  link :: quintptr

record 'i XMLNodeData =
  node_ptrs :: "quintptr \<rightharpoonup> node"
  desired_connections :: "'i SerializedConnection list"
  block_links :: "BlockLink list"
  item_ptrs :: "quintptr \<rightharpoonup> item"

text \<open>
  Modelled from the spec: the registration of a reconstructed node into \<open>node_ptrs\<close> under its
  serialization token (the loader that fills the table is not among the sources). A later
  registration under a token replaces the earlier one.
\<close>

definition register_node :: "'i XMLNodeData \<Rightarrow> quintptr \<Rightarrow> node \<Rightarrow> 'i XMLNodeData" where
  "register_node d tok n = d\<lparr>node_ptrs := (node_ptrs d)(tok \<mapsto> n)\<rparr>"

fun register_all :: "'i XMLNodeData \<Rightarrow> (quintptr \<times> node) list \<Rightarrow> 'i XMLNodeData" where
  "register_all d [] = d"
| "register_all d ((tok, n) # regs) = register_all (register_node d tok n) regs"

text \<open>
  Modelled from the spec: the body of \<^verbatim>\<open>XMLConnectNodes\<close> (only its declaration is among the
  sources). For each pending connection descriptor the source node is looked up by its token
  in \<open>node_ptrs\<close>; if found, an edge from that node's named output to the descriptor's
  destination input is created, and recorded in the undo command when one is supplied; if not
  found the descriptor is skipped. An edge is the triple of source node, output name and
  destination input; \<open>None\<close> is the null command.
\<close>

record 'i linked =
  edges_created :: "(node \<times> string \<times> 'i) list"
  command :: "(node \<times> string \<times> 'i) list option"

fun connect_loop ::
  "(quintptr \<rightharpoonup> node) \<Rightarrow> 'i SerializedConnection list \<Rightarrow> 'i linked \<Rightarrow> 'i linked" where
  "connect_loop ptrs [] st = st"
| "connect_loop ptrs (con # cons) st =
     (case ptrs (output_node con) of
        None \<Rightarrow> connect_loop ptrs cons st
      | Some out \<Rightarrow>
          connect_loop ptrs cons
            (st\<lparr>edges_created := edges_created st @ [(out, output_name con, input con)],
                command := map_option (\<lambda>ch. ch @ [(out, output_name con, input con)]) (command st)\<rparr>))"

definition XMLConnectNodes :: "'i XMLNodeData \<Rightarrow> 'i linked \<Rightarrow> 'i linked" where
  "XMLConnectNodes xml_node_data st =
     connect_loop (node_ptrs xml_node_data) (desired_connections xml_node_data) st"

text \<open>A small pending batch: three nodes registered, the token 7 twice; three descriptors,
  the second with a token nobody registered.\<close>

definition batch :: "string XMLNodeData" where
  "batch = register_all
     \<lparr>node_ptrs = Map.empty,
      desired_connections =
        [\<lparr>input = ''blur.in'', output_node = 7, output_name = ''out''\<rparr>,
         \<lparr>input = ''mix.base'', output_node = 99, output_name = ''out''\<rparr>,
         \<lparr>input = ''mix.blend'', output_node = 8, output_name = ''out''\<rparr>],
      block_links = [],
      item_ptrs = Map.empty\<rparr>
     [(7, 0), (8, 1), (7, 2)]"

section \<open>The traversals are pre-order walks\<close>

lemma walk_list_append:
  "walk_list f (a @ b) =
     (case walk_list f a of Inl err \<Rightarrow> Inl err
      | Inr xs \<Rightarrow> (case walk_list f b of Inl err \<Rightarrow> Inl err | Inr ys \<Rightarrow> Inr (xs @ ys)))"
  by (induction f a rule: walk_list.induct) (auto split: sum.splits)

lemma dep_inner_loop:
  assumes rec: "\<And>m list. f m list = map_sum id ((@) list) (h m)"
  shows "foreach es (\<lambda>edge list.
           case tgt edge of
             None \<Rightarrow> Inl NullPointer
           | Some connected_node \<Rightarrow> f connected_node (list @ [connected_node])) list
         = map_sum id ((@) list) (walk_list h (map tgt es))"
proof (induction es arbitrary: list)
  case Nil
  show ?case by simp
next
  case (Cons e es)
  show ?case
  proof (cases "tgt e")
    case None
    then show ?thesis by simp
  next
    case (Some c)
    show ?thesis
    proof (cases "h c")
      case (Inl err)
      with Some show ?thesis by (simp add: rec)
    next
      case (Inr xs)
      with Some Cons.IH [of "list @ c # xs"] show ?thesis
        by (simp add: rec split: sum.splits)
    qed
  qed
qed

lemma dep_outer_loop:
  assumes inner: "\<And>es list. body es list = map_sum id ((@) list) (walk_list h (map tgt es))"
  shows "foreach ps (\<lambda>p list. if ptype g p = kInput then body (pedges g p) list else Inr list) list
         = map_sum id ((@) list)
             (walk_list h (map tgt
                (concat (map (pedges g) (filter (\<lambda>p. ptype g p = kInput) ps)))))"
proof (induction ps arbitrary: list)
  case Nil
  show ?case by simp
next
  case (Cons p ps)
  show ?case
  proof (cases "ptype g p = kInput")
    case False
    with Cons.IH show ?thesis by simp
  next
    case True
    show ?thesis
    proof (cases "walk_list h (map tgt (pedges g p))")
      case (Inl err)
      with True show ?thesis by (simp add: inner walk_list_append)
    next
      case (Inr xs)
      with True Cons.IH [of "list @ xs"] show ?thesis
        by (simp add: inner walk_list_append split: sum.splits)
    qed
  qed
qed

lemma GetDependenciesInternal_walk:
  "GetDependenciesInternal k g n list = map_sum id ((@) list) (walk k (upstream g) n)"
proof (induction k arbitrary: n list)
  case 0
  show ?case by simp
next
  case (Suc k)
  have inner: "foreach es (\<lambda>edge list.
           case pparent g (eoutput g edge) of
             None \<Rightarrow> Inl NullPointer
           | Some connected_node \<Rightarrow>
               GetDependenciesInternal k g connected_node (list @ [connected_node])) list
         = map_sum id ((@) list)
             (walk_list (walk k (upstream g)) (map (\<lambda>e. pparent g (eoutput g e)) es))"
    for es list
    by (rule dep_inner_loop [where tgt = "\<lambda>e. pparent g (eoutput g e)"]) (rule Suc.IH)
  show ?case
    unfolding GetDependenciesInternal.simps walk.simps
    by (subst dep_outer_loop [where tgt = "\<lambda>e. pparent g (eoutput g e)", OF inner])
       (simp add: upstream_def in_edges_def edge_source_def [abs_def])
qed

lemma GetDependencies_walk: "GetDependencies k g n = walk k (upstream g) n"
  by (cases "walk k (upstream g) n") (simp_all add: GetDependencies_def GetDependenciesInternal_walk)


lemma inv_inner_loop:
  assumes rec: "\<And>m w. f m w =
      map_sum id (\<lambda>xs. w\<lparr>calls := calls w @ tag_calls s e xs\<rparr>) (walk k (downstream (heap w)) m)"
  shows "foreach es (\<lambda>edge w.
           case pparent (heap w) (einput (heap w) edge) of
             None \<Rightarrow> Inl NullPointer
           | Some target \<Rightarrow> f target (w\<lparr>calls := calls w @ [(target, s, e)]\<rparr>)) w
         = map_sum id (\<lambda>xs. w\<lparr>calls := calls w @ tag_calls s e xs\<rparr>)
             (walk_list (walk k (downstream (heap w))) (map (edge_target (heap w)) es))"
proof (induction es arbitrary: w)
  case Nil
  show ?case by (simp add: tag_calls_def)
next
  case (Cons x es)
  show ?case
  proof (cases "edge_target (heap w) x")
    case None
    then show ?thesis by (simp add: edge_target_def)
  next
    case (Some c)
    then have c: "pparent (heap w) (einput (heap w) x) = Some c"
      by (simp add: edge_target_def)
    show ?thesis
    proof (cases "walk k (downstream (heap w)) c")
      case (Inl err)
      with Some c show ?thesis by (simp add: rec)
    next
      case (Inr xs)
      with Some c Cons.IH [of "w\<lparr>calls := calls w @ (c, s, e) # tag_calls s e xs\<rparr>"]
      show ?thesis
        by (simp add: rec tag_calls_def split: sum.splits)
    qed
  qed
qed

lemma inv_outer_loop:
  assumes inner: "\<And>es w. body es w =
      map_sum id (\<lambda>xs. w\<lparr>calls := calls w @ tag_calls s e xs\<rparr>)
        (walk_list (walk k (downstream (heap w))) (map (edge_target (heap w)) es))"
  shows "foreach ps (\<lambda>param w.
           if ptype (heap w) param = kOutput then body (pedges (heap w) param) w else Inr w) w
         = map_sum id (\<lambda>xs. w\<lparr>calls := calls w @ tag_calls s e xs\<rparr>)
             (walk_list (walk k (downstream (heap w))) (map (edge_target (heap w))
                (concat (map (pedges (heap w)) (filter (\<lambda>p. ptype (heap w) p = kOutput) ps)))))"
proof (induction ps arbitrary: w)
  case Nil
  show ?case by (simp add: tag_calls_def)
next
  case (Cons p ps)
  show ?case
  proof (cases "ptype (heap w) p = kOutput")
    case False
    with Cons.IH show ?thesis by simp
  next
    case True
    show ?thesis
    proof (cases "walk_list (walk k (downstream (heap w))) (map (edge_target (heap w)) (pedges (heap w) p))")
      case (Inl err)
      with True show ?thesis by (simp add: inner walk_list_append)
    next
      case (Inr xs)
      with True Cons.IH [of "w\<lparr>calls := calls w @ tag_calls s e xs\<rparr>"] show ?thesis
        by (simp add: inner walk_list_append tag_calls_def split: sum.splits)
    qed
  qed
qed

lemma InvalidateCache_walk:
  "InvalidateCache k n s e w =
     map_sum id (\<lambda>xs. w\<lparr>calls := calls w @ tag_calls s e xs\<rparr>) (walk k (downstream (heap w)) n)"
proof (induction k arbitrary: n w)
  case 0
  show ?case by simp
next
  case (Suc k)
  show ?case
    unfolding InvalidateCache.simps walk.simps
    by (subst inv_outer_loop [where k = k, OF inv_inner_loop [where k = k], OF Suc.IH])
       (simp add: downstream_def out_edges_def)
qed

subsection \<open>More budget never changes a result; well-founded graphs need a finite budget\<close>

lemma walk_list_mono:
  assumes "\<And>m ys. f m = Inr ys \<Longrightarrow> f' m = Inr ys"
  shows "walk_list f l = Inr xs \<Longrightarrow> walk_list f' l = Inr xs"
proof (induction l arbitrary: xs)
  case Nil
  then show ?case by simp
next
  case (Cons x l)
  show ?case
  proof (cases x)
    case None
    with Cons.prems show ?thesis by simp
  next
    case (Some m)
    with Cons.prems obtain ys zs where
      "f m = Inr ys" "walk_list f l = Inr zs" "xs = m # ys @ zs"
      by (auto split: sum.splits)
    with Some assms [of m ys] Cons.IH [of zs] show ?thesis by simp
  qed
qed

lemma walk_mono: "walk k nx n = Inr xs \<Longrightarrow> k \<le> k' \<Longrightarrow> walk k' nx n = Inr xs"
proof (induction k arbitrary: n xs k')
  case 0
  then show ?case by simp
next
  case (Suc k)
  from Suc.prems(2) obtain j where j: "k' = Suc j" "k \<le> j" by (cases k') auto
  have "walk_list (walk j nx) (nx n) = Inr xs"
    using Suc.prems(1) by (auto intro: walk_list_mono [where f = "walk k nx"] Suc.IH j(2))
  with j show ?case by simp
qed

lemma walk_list_ok:
  "\<forall>x \<in> set l. \<exists>m ys. x = Some m \<and> f m = Inr ys \<Longrightarrow> \<exists>xs. walk_list f l = Inr xs"
  by (induction f l rule: walk_list.induct) (auto split: sum.splits)

lemma walk_common_fuel:
  assumes "\<forall>x \<in> set l. \<exists>m k ys. x = Some m \<and> walk k nx m = Inr ys"
  shows "\<exists>K. \<forall>x \<in> set l. \<exists>m ys. x = Some m \<and> walk K nx m = Inr ys"
  using assms
proof (induction l)
  case Nil
  show ?case by simp
next
  case (Cons x l)
  then obtain K where K: "\<forall>x \<in> set l. \<exists>m ys. x = Some m \<and> walk K nx m = Inr ys" by auto
  from Cons.prems obtain m k ys where m: "x = Some m" "walk k nx m = Inr ys" by auto
  have "\<forall>x' \<in> set (x # l). \<exists>m ys. x' = Some m \<and> walk (max K k) nx m = Inr ys"
  proof
    fix x' assume "x' \<in> set (x # l)"
    then consider "x' = x" | "x' \<in> set l" by auto
    then show "\<exists>m ys. x' = Some m \<and> walk (max K k) nx m = Inr ys"
    proof cases
      case 1
      with m walk_mono [OF m(2), of "max K k"] show ?thesis by simp
    next
      case 2
      with K obtain m' ys' where "x' = Some m'" "walk K nx m' = Inr ys'" by blast
      with walk_mono [of K nx m' ys' "max K k"] show ?thesis by simp
    qed
  qed
  then show ?case by blast
qed

lemma walk_terminates:
  assumes wf: "wf {(m, n). Some m \<in> set (nx n)}" and owned: "\<And>n. None \<notin> set (nx n)"
  shows "\<exists>k xs. walk k nx n = Inr xs"
  using wf
proof (induction n rule: wf_induct_rule)
  case (less n)
  have "\<forall>x \<in> set (nx n). \<exists>m k ys. x = Some m \<and> walk k nx m = Inr ys"
  proof
    fix x assume x: "x \<in> set (nx n)"
    with owned [of n] obtain m where m: "x = Some m" by (cases x) auto
    with x less [of m] show "\<exists>m k ys. x = Some m \<and> walk k nx m = Inr ys" by auto
  qed
  then obtain K where "\<forall>x \<in> set (nx n). \<exists>m ys. x = Some m \<and> walk K nx m = Inr ys"
    using walk_common_fuel by blast
  then obtain xs where "walk_list (walk K nx) (nx n) = Inr xs"
    using walk_list_ok by blast
  then have "walk (Suc K) nx n = Inr xs" by simp
  then show ?case by blast
qed

text \<open>Without a cycle guard, a node that feeds itself uses up every budget.\<close>

lemma walk_self_loop: "nx n = [Some n] \<Longrightarrow> walk k nx n = Inl StackExhausted"
  by (induction k) simp_all

lemma GetDependencies_self_loop:
  "upstream g n = [Some n] \<Longrightarrow> GetDependencies fuel g n = Inl StackExhausted"
  by (simp add: GetDependencies_walk walk_self_loop)

subsection \<open>One visit per path\<close>

lemma dep_path_gpath: "dep_path g n r m = gpath (in_edges g) (edge_source g) n r m"
  by (induction r arbitrary: n) (auto split: option.splits)

lemma inv_path_gpath: "inv_path g n r m = gpath (out_edges g) (edge_target g) n r m"
  by (induction r arbitrary: n) (auto split: option.splits)

lemma paths_to_split:
  "paths_to es tgt P n = (if P n then {[]} else {}) \<union> paths_via es tgt P (es n)"
proof (rule set_eqI)
  fix r
  show "r \<in> paths_to es tgt P n \<longleftrightarrow>
        r \<in> (if P n then {[]} else {}) \<union> paths_via es tgt P (es n)"
    by (cases r) (auto simp: paths_to_def paths_via_def split: option.splits)
qed

lemma paths_via_Nil: "paths_via es tgt P [] = {}"
  by (simp add: paths_via_def)

lemma paths_via_Cons:
  "paths_via es tgt P (e # l) =
     (case tgt e of None \<Rightarrow> {} | Some m \<Rightarrow> (#) e ` paths_to es tgt P m) \<union> paths_via es tgt P l"
  by (auto simp: paths_via_def split: option.splits)

lemma paths_via_head: "r \<in> paths_via es tgt P l \<Longrightarrow> r \<noteq> [] \<and> hd r \<in> set l"
  by (auto simp: paths_via_def)

lemma walk_list_count:
  assumes rec: "\<And>m ys. f m = Inr ys \<Longrightarrow>
      finite (paths_via es tgt P (es m)) \<and> length (filter P ys) = card (paths_via es tgt P (es m))"
  shows "walk_list f (map tgt l) = Inr xs \<Longrightarrow> distinct l \<Longrightarrow>
      finite (paths_via es tgt P l) \<and> length (filter P xs) = card (paths_via es tgt P l)"
proof (induction l arbitrary: xs)
  case Nil
  then show ?case by (simp add: paths_via_Nil)
next
  case (Cons e l)
  from Cons.prems(1) obtain m ys zs where
    m: "tgt e = Some m" and ys: "f m = Inr ys" and zs: "walk_list f (map tgt l) = Inr zs"
    and xs: "xs = m # ys @ zs"
    by (cases "tgt e") (auto split: sum.splits)
  from rec [OF ys] have fin_m: "finite (paths_via es tgt P (es m))"
    and len_m: "length (filter P ys) = card (paths_via es tgt P (es m))" by simp_all
  from Cons.IH [OF zs] Cons.prems(2) have fin_l: "finite (paths_via es tgt P l)"
    and len_l: "length (filter P zs) = card (paths_via es tgt P l)" by simp_all
  have nil: "[] \<notin> paths_via es tgt P (es m)"
    using paths_via_head by blast
  have fin_to: "finite (paths_to es tgt P m)"
    by (simp add: paths_to_split fin_m)
  have card_to: "card (paths_to es tgt P m) = (if P m then 1 else 0) + card (paths_via es tgt P (es m))"
    using nil fin_m by (simp add: paths_to_split)
  have disj: "(#) e ` paths_to es tgt P m \<inter> paths_via es tgt P l = {}"
  proof -
    have "e \<notin> set l" using Cons.prems(2) by simp
    then show ?thesis using paths_via_head [of _ es tgt P l] by fastforce
  qed
  have eq: "paths_via es tgt P (e # l) = (#) e ` paths_to es tgt P m \<union> paths_via es tgt P l"
    by (simp add: paths_via_Cons m)
  have "card (paths_via es tgt P (e # l)) =
        card ((#) e ` paths_to es tgt P m) + card (paths_via es tgt P l)"
    unfolding eq using fin_to fin_l disj by (simp add: card_Un_disjoint)
  also have "card ((#) e ` paths_to es tgt P m) = card (paths_to es tgt P m)"
    by (rule card_image) simp
  finally have "card (paths_via es tgt P (e # l)) =
      (if P m then 1 else 0) + card (paths_via es tgt P (es m)) + card (paths_via es tgt P l)"
    by (simp add: card_to)
  moreover have "finite (paths_via es tgt P (e # l))"
    unfolding eq using fin_to fin_l by simp
  ultimately show ?case by (simp add: xs len_m len_l)
qed

lemma walk_count:
  assumes dist: "\<And>n. distinct (es n)"
  shows "walk k (\<lambda>n. map tgt (es n)) n = Inr xs \<Longrightarrow>
      finite (paths_via es tgt P (es n)) \<and> length (filter P xs) = card (paths_via es tgt P (es n))"
proof (induction k arbitrary: n xs)
  case 0
  then show ?case by simp
next
  case (Suc k)
  from Suc.prems have "walk_list (walk k (\<lambda>n. map tgt (es n))) (map tgt (es n)) = Inr xs"
    by simp
  then show ?case
    by (rule walk_list_count [rotated]) (rule dist, rule Suc.IH)
qed

lemma paths_via_nonempty:
  "paths_via es tgt P (es n) = {r. r \<noteq> [] \<and> (\<exists>t. gpath es tgt n r t \<and> P t)}"
proof (rule set_eqI)
  fix r
  show "r \<in> paths_via es tgt P (es n) \<longleftrightarrow> r \<in> {r. r \<noteq> [] \<and> (\<exists>t. gpath es tgt n r t \<and> P t)}"
    by (cases r) (auto simp: paths_to_def paths_via_def split: option.splits)
qed

subsection \<open>The example graphs\<close>

lemma upstream_chain:
  "upstream chain n = (if n = 1 then [Some 0] else if n = 2 then [Some 1] else [])"
  by (simp add: upstream_def in_edges_def parameters_def edge_source_def chain_def)

lemma in_edges_chain:
  "in_edges chain n = (if n = 1 then [0] else if n = 2 then [1] else [])"
  by (simp add: in_edges_def parameters_def chain_def)

lemma out_edges_diamond:
  "out_edges diamond n = (if n = 0 then [0, 1] else if n = 1 then [2] else if n = 2 then [3] else [])"
  by (simp add: out_edges_def parameters_def diamond_def)

lemma downstream_diamond:
  "downstream diamond n =
     (if n = 0 then [Some 1, Some 2] else if n = 1 then [Some 3] else if n = 2 then [Some 3] else [])"
  by (simp add: downstream_def out_edges_diamond edge_target_def) (simp add: diamond_def)

lemma upstream_diamond:
  "upstream diamond n =
     (if n = 1 then [Some 0] else if n = 2 then [Some 0] else if n = 3 then [Some 1, Some 2] else [])"
  by (simp add: upstream_def in_edges_def parameters_def edge_source_def diamond_def)

lemma div3 [simp]:
  "Suc (3 * n) div 3 = n" "Suc (Suc (3 * n)) div 3 = n"
  "Suc (3 * n) mod 3 = 1" "Suc (Suc (3 * n)) mod 3 = 2"
  "Suc (2 * n) div 2 = n"
  by presburger+

lemma parameters_ladder:
  "parameters ladder n = (if n \<le> 5 then [3 * n, Suc (3 * n), Suc (Suc (3 * n))] else [])"
  by (simp add: parameters_def ladder_def)

lemma ptype_ladder:
  "ptype ladder (3 * n) = kInput" "ptype ladder (Suc (3 * n)) = kInput"
  "ptype ladder (Suc (Suc (3 * n))) = kOutput"
  by (simp_all add: ladder_def)

lemma pedges_ladder:
  "pedges ladder (3 * n) = (if 1 \<le> n \<and> n \<le> 5 then [2 * (n - 1)] else [])"
  "pedges ladder (Suc (3 * n)) = (if 1 \<le> n \<and> n \<le> 5 then [Suc (2 * (n - 1))] else [])"
  "pedges ladder (Suc (Suc (3 * n))) = (if n < 5 then [2 * n, Suc (2 * n)] else [])"
  by (simp_all add: ladder_def)

lemma in_edges_ladder:
  "in_edges ladder n = (if 1 \<le> n \<and> n \<le> 5 then [2 * (n - 1), Suc (2 * (n - 1))] else [])"
  by (auto simp add: in_edges_def parameters_ladder ptype_ladder pedges_ladder)

lemma out_edges_ladder:
  "out_edges ladder n = (if n < 5 then [2 * n, Suc (2 * n)] else [])"
  by (auto simp add: out_edges_def parameters_ladder ptype_ladder pedges_ladder)
     (simp_all add: ladder_def)

lemma edge_source_ladder:
  "n < 5 \<Longrightarrow> edge_source ladder (2 * n) = Some n"
  "n < 5 \<Longrightarrow> edge_source ladder (Suc (2 * n)) = Some n"
  by (simp_all add: edge_source_def ladder_def)

lemma upstream_ladder:
  "upstream ladder n = (if 1 \<le> n \<and> n \<le> 5 then [Some (n - 1), Some (n - 1)] else [])"
  by (auto simp add: upstream_def in_edges_ladder edge_source_ladder)

section \<open>Shared facts for the claims\<close>

lemma walk_stable:
  assumes "walk k nx n = Inr xs"
  shows "\<forall>fuel\<ge>k. walk fuel nx n = Inr xs"
proof (intro allI impI)
  fix fuel assume "k \<le> fuel"
  with assms show "walk fuel nx n = Inr xs" by (rule walk_mono)
qed

lemma upstream_as_map: "upstream g = (\<lambda>n. map (edge_source g) (in_edges g n))"
  by (rule ext) (simp add: upstream_def)

lemma downstream_as_map: "downstream g = (\<lambda>n. map (edge_target g) (out_edges g n))"
  by (rule ext) (simp add: downstream_def)

lemma dep_walk_paths:
  assumes "walk k (upstream g) n = Inr xs" and "\<forall>n. distinct (in_edges g n)"
  shows "finite {r. r \<noteq> [] \<and> (\<exists>m. dep_path g n r m \<and> P m)}
       \<and> length (filter P xs) = card {r. r \<noteq> [] \<and> (\<exists>m. dep_path g n r m \<and> P m)}"
  using walk_count [of "in_edges g" k "edge_source g" n xs P] assms
  by (simp add: upstream_as_map paths_via_nonempty dep_path_gpath)

lemma inv_walk_paths:
  assumes "walk k (downstream g) n = Inr xs" and "\<forall>n. distinct (out_edges g n)"
  shows "finite {r. r \<noteq> [] \<and> (\<exists>m. inv_path g n r m \<and> P m)}
       \<and> length (filter P xs) = card {r. r \<noteq> [] \<and> (\<exists>m. inv_path g n r m \<and> P m)}"
  using walk_count [of "out_edges g" k "edge_target g" n xs P] assms
  by (simp add: downstream_as_map paths_via_nonempty inv_path_gpath)

lemma walk_list_blocks:
  "walk_list f l = Inr xs \<Longrightarrow>
     \<exists>ms ds. l = map Some ms \<and> list_all2 (\<lambda>m d. f m = Inr d) ms ds \<and> xs = concat (map2 (#) ms ds)"
proof (induction l arbitrary: xs)
  case Nil
  then show ?case by simp
next
  case (Cons x l)
  from Cons.prems obtain m ys zs where
    x: "x = Some m" and ys: "f m = Inr ys" and zs: "walk_list f l = Inr zs" and xs: "xs = m # ys @ zs"
    by (cases x) (auto split: sum.splits)
  from Cons.IH [OF zs] obtain ms ds where
    "l = map Some ms" "list_all2 (\<lambda>m d. f m = Inr d) ms ds" "zs = concat (map2 (#) ms ds)"
    by blast
  with x ys xs have "x # l = map Some (m # ms) \<and> list_all2 (\<lambda>m d. f m = Inr d) (m # ms) (ys # ds)
      \<and> xs = concat (map2 (#) (m # ms) (ys # ds))"
    by simp
  then show ?case by (intro exI [where x = "m # ms"] exI [where x = "ys # ds"])
qed

lemma walk_chain:
  assumes "nx c = [Some b]" "nx b = [Some a]" "nx a = []" "3 \<le> fuel"
  shows "walk fuel nx c = Inr [b, a]"
proof -
  have "walk 3 nx c = Inr [b, a]"
    using assms(1-3) by (simp add: eval_nat_numeral)
  then show ?thesis using assms(4) by (rule walk_mono)
qed

lemma walk_diamond:
  assumes "nx d = [Some b, Some c]" "nx b = [Some a]" "nx c = [Some a]" "nx a = []" "3 \<le> fuel"
  shows "walk fuel nx d = Inr [b, a, c, a]"
proof -
  have "walk 3 nx d = Inr [b, a, c, a]"
    using assms(1-4) by (simp add: eval_nat_numeral)
  then show ?thesis using assms(5) by (rule walk_mono)
qed

lemma finite_acyclic_by_rank:
  assumes "\<And>m n. (m, n) \<in> R \<Longrightarrow> f m < (f n :: nat) \<and> m < N \<and> n < (N :: nat)"
  shows "finite R \<and> acyclic R"
proof
  have "R \<subseteq> {..<N} \<times> {..<N}"
  proof
    fix x assume "x \<in> R"
    with assms [of "fst x" "snd x"] show "x \<in> {..<N} \<times> {..<N}" by (cases x) simp
  qed
  then show "finite R" by (rule finite_subset) simp
  have "R \<subseteq> measure f"
  proof
    fix x assume "x \<in> R"
    with assms [of "fst x" "snd x"] show "x \<in> measure f" by (cases x) simp
  qed
  with wf_measure have "wf R" by (rule wf_subset)
  then show "acyclic R" by (rule wf_acyclic)
qed

lemma downstream_leaf:
  assumes "\<forall>p \<in> set (parameters g n). ptype g p = kOutput \<longrightarrow> pedges g p = []"
  shows "downstream g n = []"
  using assms by (auto simp: downstream_def out_edges_def)

subsection \<open>The example graphs are finite, acyclic and well formed\<close>

lemma inv_rel_diamond:
  "(m, n) \<in> inv_rel diamond \<Longrightarrow> 4 - m < 4 - n \<and> m < 4 \<and> n < 4"
  by (auto simp: inv_rel_def downstream_diamond split: if_splits)

lemma diamond_wellformed:
  "finite (inv_rel diamond)" "acyclic (inv_rel diamond)"
  "\<forall>n. None \<notin> set (downstream diamond n)" "\<forall>n. distinct (out_edges diamond n)"
  using finite_acyclic_by_rank [of "inv_rel diamond" "\<lambda>x. 4 - x" 4, OF inv_rel_diamond]
  by (simp_all add: downstream_diamond out_edges_diamond)

lemma dep_rel_ladder: "(m, n) \<in> dep_rel ladder \<Longrightarrow> id m < id n \<and> m < 6 \<and> n < 6"
  by (auto simp: dep_rel_def upstream_ladder split: if_splits)

lemma ladder_wellformed:
  "finite (dep_rel ladder)" "acyclic (dep_rel ladder)"
  "\<forall>n. None \<notin> set (upstream ladder n)" "\<forall>n. distinct (in_edges ladder n)"
  using finite_acyclic_by_rank [of "dep_rel ladder" id 6, OF dep_rel_ladder]
  by (simp_all add: upstream_ladder in_edges_ladder)

lemma ladder_run: "map_sum id length (GetDependencies 6 ladder 5) = Inr 62"
  by code_simp

lemma InvalidateCache_diamond:
  "InvalidateCache 3 0 (1/2) 3 \<lparr>heap = diamond, calls = []\<rparr> =
     Inr \<lparr>heap = diamond, calls = [(1, 1/2, 3), (3, 1/2, 3), (2, 1/2, 3), (3, 1/2, 3)]\<rparr>"
  by (simp add: InvalidateCache_walk downstream_diamond eval_nat_numeral tag_calls_def)

lemma chain_unique_ids: "\<forall>m. distinct (map (pid chain) (parameters chain m))"
  by (simp add: parameters_def chain_def)

subsection \<open>The ladder has ten edges and no path longer than five\<close>

lemma graph_edges_ladder: "graph_edges ladder = {..<10}"
proof (rule set_eqI)
  fix e
  show "e \<in> graph_edges ladder \<longleftrightarrow> e \<in> {..<10}"
  proof
    assume "e \<in> graph_edges ladder"
    then show "e \<in> {..<10}"
      by (auto simp: graph_edges_def in_edges_ladder split: if_splits)
  next
    assume e: "e \<in> {..<10}"
    have "e \<in> set (in_edges ladder (Suc (e div 2)))"
    proof (cases "even e")
      case True
      then have "e = 2 * (e div 2)" by simp
      with e show ?thesis by (simp add: in_edges_ladder)
    next
      case False
      then have "e = Suc (2 * (e div 2))" by presburger
      with e show ?thesis by (simp add: in_edges_ladder)
    qed
    then show "e \<in> graph_edges ladder" by (auto simp: graph_edges_def)
  qed
qed

lemma dep_path_ladder_length: "dep_path ladder n r m \<Longrightarrow> length r \<le> 5"
proof -
  have "dep_path ladder n r m \<Longrightarrow> length r \<le> n \<and> (r \<noteq> [] \<longrightarrow> n \<le> 5)" for n
  proof (induction r arbitrary: n)
    case Nil
    then show ?case by simp
  next
    case (Cons e r)
    from Cons.prems have n: "1 \<le> n" "n \<le> 5" and e: "e = 2 * (n - 1) \<or> e = Suc (2 * (n - 1))"
      by (auto simp: in_edges_ladder split: if_splits)
    from n e have "edge_source ladder e = Some (n - 1)"
      by (auto simp: edge_source_ladder)
    with Cons.prems have "dep_path ladder (n - 1) r m" by simp
    from Cons.IH [OF this] n show ?case by auto
  qed
  from this [of n] show "dep_path ladder n r m \<Longrightarrow> length r \<le> 5"
    by (cases "r = []") simp_all
qed

lemma dep_path_ladder_longest: "dep_path ladder 5 [8, 6, 4, 2, 0] 0"
  by code_simp

lemma longest_path_ladder: "longest_path ladder = 5"
  unfolding longest_path_def
proof (rule Max_eqI)
  have "{length es |es n m. dep_path ladder n es m} \<subseteq> {..5}"
  proof
    fix y assume "y \<in> {length es |es n m. dep_path ladder n es m}"
    then obtain es n m where "y = length es" "dep_path ladder n es m" by blast
    with dep_path_ladder_length [of n es m] show "y \<in> {..5}" by simp
  qed
  then show "finite {length es |es n m. dep_path ladder n es m}"
    by (rule finite_subset) simp
next
  fix y assume "y \<in> {length es |es n m. dep_path ladder n es m}"
  then obtain es n m where "y = length es" "dep_path ladder n es m" by blast
  with dep_path_ladder_length [of n es m] show "y \<le> 5" by simp
next
  have "length [8, 6, 4, 2, 0 :: nat] = 5" by simp
  with dep_path_ladder_longest show "5 \<in> {length es |es n m. dep_path ladder n es m}"
    by (intro CollectI exI [where x = "[8, 6, 4, 2, 0]"] exI [where x = 5] exI [where x = 0]) simp
qed

subsection \<open>Parameter ids, registration and linking\<close>

lemma has_id_loop_iff: "has_id_loop g ps i \<longleftrightarrow> (\<exists>q \<in> set ps. pid g q = i)"
  by (induction ps) auto

lemma distinct_map_removeAll: "distinct (map f xs) \<Longrightarrow> distinct (map f (removeAll p xs))"
  by (induction xs) auto

lemma setParent_unique_ids:
  assumes fresh: "\<not> HasParamWithID g n (pid g p)"
    and uniq: "\<forall>m. distinct (map (pid g) (parameters g m))"
  shows "distinct (map (pid (setParent g p n)) (parameters (setParent g p n) m))"
proof (cases "pparent g p = Some n")
  case True
  with uniq show ?thesis by (simp add: setParent_def)
next
  case False
  from fresh have "pid g p \<notin> pid g ` set (children g n)"
    by (auto simp: HasParamWithID_def has_id_loop_iff parameters_def)
  with False uniq [rule_format, of m] uniq [rule_format, of n] show ?thesis
    by (simp add: setParent_def parameters_def distinct_map_removeAll)
qed

lemma connect_loop_edges:
  "edges_created (connect_loop ptrs cons st) =
     edges_created st @ concat (map (\<lambda>con. case ptrs (output_node con) of
                                         None \<Rightarrow> []
                                       | Some out \<Rightarrow> [(out, output_name con, input con)]) cons)"
  by (induction cons arbitrary: st) (auto split: option.splits)

lemma register_all_append: "register_all d (a @ b) = register_all (register_all d a) b"
  by (induction a arbitrary: d) auto

lemma register_all_other:
  "tok \<notin> fst ` set l \<Longrightarrow> node_ptrs (register_all d l) tok = node_ptrs d tok"
  by (induction l arbitrary: d) (auto simp: register_node_def)

text \<open>In a build without assertions nothing is checked: the parameter is added whatever its
  id.\<close>

lemma AddParameter_release: "AddParameter False g n p = Inr (setParent g p n)"
  by (simp add: AddParameter_def)

section \<open>The claims\<close>

text \<open>
  Claim C1. On a finite acyclic graph whose connected parameters all have an owner and whose
  output edge lists hold no edge twice, \<^verbatim>\<open>InvalidateCache(N, start_range, end_range)\<close> returns
  for every large enough recursion budget, always with the same record of calls \<open>new\<close>. Every
  node \<open>m\<close> receives exactly as many calls as there are non-empty forward paths (sequences of
  output-to-input edges) from \<open>N\<close> to \<open>m\<close>: nothing is deduplicated. In particular every node
  reachable from \<open>N\<close> is invalidated at least once, with the range given.
\<close>

theorem InvalidateCache_reaches_all:
  assumes fin: "finite (inv_rel (heap w))" and acyc: "acyclic (inv_rel (heap w))"
    and owned: "\<forall>n. None \<notin> set (downstream (heap w) n)"
    and dist: "\<forall>n. distinct (out_edges (heap w) n)"
  shows "\<exists>k new.
      (\<forall>fuel\<ge>k. InvalidateCache fuel n start_range end_range w = Inr (w\<lparr>calls := calls w @ new\<rparr>))
    \<and> (\<forall>m. finite {r. r \<noteq> [] \<and> inv_path (heap w) n r m}
          \<and> length (filter (\<lambda>c. fst c = m) new) = card {r. r \<noteq> [] \<and> inv_path (heap w) n r m})
    \<and> (\<forall>m r. r \<noteq> [] \<and> inv_path (heap w) n r m \<longrightarrow> (m, start_range, end_range) \<in> set new)"
proof -
  let ?g = "heap w"
  have "wf {(m, n). Some m \<in> set (downstream ?g n)}"
    using finite_acyclic_wf [OF fin acyc] by (simp add: inv_rel_def)
  then obtain k xs where run: "walk k (downstream ?g) n = Inr xs"
    using walk_terminates [of "downstream ?g" n] owned by blast
  let ?new = "tag_calls start_range end_range xs"
  have stable: "\<forall>fuel\<ge>k. InvalidateCache fuel n start_range end_range w
      = Inr (w\<lparr>calls := calls w @ ?new\<rparr>)"
    using walk_stable [OF run] by (simp add: InvalidateCache_walk)
  have count: "finite {r. r \<noteq> [] \<and> inv_path ?g n r m}
      \<and> length (filter (\<lambda>c. fst c = m) ?new) = card {r. r \<noteq> [] \<and> inv_path ?g n r m}" for m
  proof -
    have "filter (\<lambda>c. fst c = m) ?new = tag_calls start_range end_range (filter (\<lambda>x. x = m) xs)"
      by (simp add: tag_calls_def filter_map comp_def)
    then have "length (filter (\<lambda>c. fst c = m) ?new) = length (filter (\<lambda>x. x = m) xs)"
      by (simp add: tag_calls_def)
    with inv_walk_paths [OF run dist, of "\<lambda>x. x = m"] show ?thesis by simp
  qed
  have reach: "(m, start_range, end_range) \<in> set ?new" if "r \<noteq> [] \<and> inv_path ?g n r m" for m r
  proof -
    from that have "r \<in> {r. r \<noteq> [] \<and> inv_path ?g n r m}" by simp
    moreover have "finite {r. r \<noteq> [] \<and> inv_path ?g n r m}"
      using count [of m] by simp
    ultimately have "0 < card {r. r \<noteq> [] \<and> inv_path ?g n r m}"
      by (metis card_gt_0_iff empty_iff)
    with count [of m] have "0 < length (filter (\<lambda>c. fst c = m) ?new)" by simp
    then have "\<exists>c \<in> set ?new. fst c = m"
      by (simp add: filter_empty_conv)
    then show ?thesis by (auto simp: tag_calls_def)
  qed
  show ?thesis
  proof (intro exI [where x = k] exI [where x = ?new] conjI allI impI)
    fix fuel assume "k \<le> fuel"
    with stable show "InvalidateCache fuel n start_range end_range w
      = Inr (w\<lparr>calls := calls w @ ?new\<rparr>)" by simp
  next
    fix m show "finite {r. r \<noteq> [] \<and> inv_path ?g n r m}" using count [of m] by simp
  next
    fix m show "length (filter (\<lambda>c. fst c = m) ?new) = card {r. r \<noteq> [] \<and> inv_path ?g n r m}"
      using count [of m] by simp
  next
    fix m r assume "r \<noteq> [] \<and> inv_path ?g n r m"
    then show "(m, start_range, end_range) \<in> set ?new" by (rule reach)
  qed
qed

text \<open>
  The diamond, invalidated at A = 0: B and C are called once, D = 3 twice, once for each of the
  two paths that lead to it.
\<close>

theorem InvalidateCache_reaches_all_witness:
  "\<exists>k new.
      (\<forall>fuel\<ge>k. InvalidateCache fuel 0 (1/2) 3 \<lparr>heap = diamond, calls = []\<rparr>
                  = Inr \<lparr>heap = diamond, calls = new\<rparr>)
    \<and> (\<forall>m. finite {r. r \<noteq> [] \<and> inv_path diamond 0 r m}
          \<and> length (filter (\<lambda>c. fst c = m) new) = card {r. r \<noteq> [] \<and> inv_path diamond 0 r m})
    \<and> (\<forall>m r. r \<noteq> [] \<and> inv_path diamond 0 r m \<longrightarrow> (m, 1/2, 3) \<in> set new)
    \<and> new = [(1, 1/2, 3), (3, 1/2, 3), (2, 1/2, 3), (3, 1/2, 3)]
    \<and> card {r. r \<noteq> [] \<and> inv_path diamond 0 r 3} = 2"
proof -
  let ?w = "\<lparr>heap = diamond, calls = []\<rparr>"
  have wf: "finite (inv_rel (heap ?w))" "acyclic (inv_rel (heap ?w))"
    "\<forall>n. None \<notin> set (downstream (heap ?w) n)" "\<forall>n. distinct (out_edges (heap ?w) n)"
    using diamond_wellformed by simp_all
  from InvalidateCache_reaches_all [OF wf, of 0 "1/2" 3]
  obtain k new where
    k: "\<forall>fuel\<ge>k. InvalidateCache fuel 0 (1/2) 3 ?w = Inr (?w\<lparr>calls := calls ?w @ new\<rparr>)"
    and count: "\<forall>m. finite {r. r \<noteq> [] \<and> inv_path (heap ?w) 0 r m}
          \<and> length (filter (\<lambda>c. fst c = m) new) = card {r. r \<noteq> [] \<and> inv_path (heap ?w) 0 r m}"
    and reach: "\<forall>m r. r \<noteq> [] \<and> inv_path (heap ?w) 0 r m \<longrightarrow> (m, 1/2, 3) \<in> set new"
    by (elim exE conjE)
  have "walk 3 (downstream diamond) 0 = Inr [1, 3, 2, 3]"
    by (simp add: downstream_diamond eval_nat_numeral)
  then have "walk (max k 3) (downstream diamond) 0 = Inr [1, 3, 2, 3]"
    by (rule walk_mono) simp
  then have "InvalidateCache (max k 3) 0 (1/2) 3 ?w
      = Inr \<lparr>heap = diamond, calls = [(1, 1/2, 3), (3, 1/2, 3), (2, 1/2, 3), (3, 1/2, 3)]\<rparr>"
    by (simp add: InvalidateCache_walk tag_calls_def)
  moreover from k have "InvalidateCache (max k 3) 0 (1/2) 3 ?w = Inr \<lparr>heap = diamond, calls = new\<rparr>"
    by simp
  ultimately have new: "new = [(1, 1/2, 3), (3, 1/2, 3), (2, 1/2, 3), (3, 1/2, 3)]" by simp
  from count have "length (filter (\<lambda>c. fst c = 3) new) = card {r. r \<noteq> [] \<and> inv_path diamond 0 r 3}"
    by simp
  with new have card: "card {r. r \<noteq> [] \<and> inv_path diamond 0 r 3} = 2" by simp
  show ?thesis
  proof (intro exI [where x = k] exI [where x = new] conjI)
    from k show "\<forall>fuel\<ge>k. InvalidateCache fuel 0 (1/2) 3 ?w = Inr \<lparr>heap = diamond, calls = new\<rparr>"
      by simp
    from count show "\<forall>m. finite {r. r \<noteq> [] \<and> inv_path diamond 0 r m}
          \<and> length (filter (\<lambda>c. fst c = m) new) = card {r. r \<noteq> [] \<and> inv_path diamond 0 r m}"
      by simp
    from reach show "\<forall>m r. r \<noteq> [] \<and> inv_path diamond 0 r m \<longrightarrow> (m, 1/2, 3) \<in> set new"
      by simp
  qed (rule new, rule card)
qed

text \<open>
  Claim C2. For a chain A \<rightarrow> B \<rightarrow> C (the only upstream node of C is B, that of B is A, and A has
  none) \<^verbatim>\<open>GetDependencies(C)\<close> contains both A and B. For a diamond A \<rightarrow> B, A \<rightarrow> C, B \<rightarrow> D,
  C \<rightarrow> D (the inputs of D are fed by B and C, in either order) \<^verbatim>\<open>GetDependencies(D)\<close> contains
  A exactly twice, once per path: duplicates are not removed.
\<close>

theorem GetDependencies_chain_diamond:
  "(upstream g c = [Some b] \<and> upstream g b = [Some a] \<and> upstream g a = [] \<longrightarrow>
      (\<exists>xs. (\<forall>fuel\<ge>3. GetDependencies fuel g c = Inr xs) \<and> a \<in> set xs \<and> b \<in> set xs))
   \<and> ((upstream g' d' = [Some b', Some c'] \<or> upstream g' d' = [Some c', Some b'])
        \<and> upstream g' b' = [Some a'] \<and> upstream g' c' = [Some a'] \<and> upstream g' a' = [] \<longrightarrow>
      (\<exists>xs. (\<forall>fuel\<ge>3. GetDependencies fuel g' d' = Inr xs) \<and> count_list xs a' = 2))"
proof (intro conjI impI)
  assume "upstream g c = [Some b] \<and> upstream g b = [Some a] \<and> upstream g a = []"
  then have "\<forall>fuel\<ge>3. GetDependencies fuel g c = Inr [b, a]"
    by (simp add: GetDependencies_walk walk_chain)
  then show "\<exists>xs. (\<forall>fuel\<ge>3. GetDependencies fuel g c = Inr xs) \<and> a \<in> set xs \<and> b \<in> set xs"
    by (intro exI [of _ "[b, a]"]) simp
next
  assume h: "(upstream g' d' = [Some b', Some c'] \<or> upstream g' d' = [Some c', Some b'])
        \<and> upstream g' b' = [Some a'] \<and> upstream g' c' = [Some a'] \<and> upstream g' a' = []"
  then have ne: "b' \<noteq> a'" "c' \<noteq> a'" by auto
  from h consider "upstream g' d' = [Some b', Some c']" | "upstream g' d' = [Some c', Some b']"
    by blast
  then show "\<exists>xs. (\<forall>fuel\<ge>3. GetDependencies fuel g' d' = Inr xs) \<and> count_list xs a' = 2"
  proof cases
    case 1
    with h have "\<forall>fuel\<ge>3. GetDependencies fuel g' d' = Inr [b', a', c', a']"
      by (simp add: GetDependencies_walk walk_diamond)
    then show ?thesis using ne by (intro exI [of _ "[b', a', c', a']"]) simp
  next
    case 2
    with h have "\<forall>fuel\<ge>3. GetDependencies fuel g' d' = Inr [c', a', b', a']"
      by (simp add: GetDependencies_walk walk_diamond)
    then show ?thesis using ne by (intro exI [of _ "[c', a', b', a']"]) simp
  qed
qed

text \<open>
  The two example graphs: C = 2 in the chain, D = 3 in the diamond, A = 0 in both.
\<close>

theorem GetDependencies_chain_diamond_witness:
  "(\<exists>xs. (\<forall>fuel\<ge>3. GetDependencies fuel chain 2 = Inr xs) \<and> 0 \<in> set xs \<and> 1 \<in> set xs)
   \<and> (\<exists>xs. (\<forall>fuel\<ge>3. GetDependencies fuel diamond 3 = Inr xs) \<and> count_list xs 0 = 2)"
proof -
  have ch: "upstream chain 2 = [Some 1] \<and> upstream chain 1 = [Some 0] \<and> upstream chain 0 = []"
    by (simp add: upstream_chain)
  have di: "(upstream diamond 3 = [Some 1, Some 2] \<or> upstream diamond 3 = [Some 2, Some 1])
      \<and> upstream diamond 1 = [Some 0] \<and> upstream diamond 2 = [Some 0] \<and> upstream diamond 0 = []"
    by (simp add: upstream_diamond)
  from GetDependencies_chain_diamond [of chain 2 1 0 diamond 3 1 2 0] ch di
  show ?thesis by blast
qed

text \<open>
  Claim C3, as amended. On a finite acyclic graph whose connected parameters all have an owner
  and whose input edge lists hold no edge twice, \<^verbatim>\<open>GetDependencies\<close> returns for every large enough
  recursion budget, always the same list; the list is finite and has exactly one entry for each
  non-empty dependency path that starts at the node. (The claim as stated bounds the length by
  the number of edges times the length of the longest path; the counterexample below shows that
  this bound does not hold.)
\<close>

theorem GetDependencies_terminates_length:
  assumes fin: "finite (dep_rel g)" and acyc: "acyclic (dep_rel g)"
    and owned: "\<forall>n. None \<notin> set (upstream g n)"
    and dist: "\<forall>n. distinct (in_edges g n)"
  shows "\<exists>k xs. (\<forall>fuel\<ge>k. GetDependencies fuel g n = Inr xs)
       \<and> finite {r. r \<noteq> [] \<and> (\<exists>m. dep_path g n r m)}
       \<and> length xs = card {r. r \<noteq> [] \<and> (\<exists>m. dep_path g n r m)}"
proof -
  have "wf {(m, n). Some m \<in> set (upstream g n)}"
    using finite_acyclic_wf [OF fin acyc] by (simp add: dep_rel_def)
  then obtain k xs where run: "walk k (upstream g) n = Inr xs"
    using walk_terminates [of "upstream g" n] owned by blast
  from dep_walk_paths [OF run dist, of "\<lambda>_. True"]
  have "finite {r. r \<noteq> [] \<and> (\<exists>m. dep_path g n r m)}
       \<and> length xs = card {r. r \<noteq> [] \<and> (\<exists>m. dep_path g n r m)}" by simp
  moreover have "\<forall>fuel\<ge>k. GetDependencies fuel g n = Inr xs"
    using walk_stable [OF run] by (simp add: GetDependencies_walk)
  ultimately show ?thesis
    by (intro exI [where x = k] exI [where x = xs]) simp
qed

text \<open>
  The ladder at its last node: 62 paths, 62 entries.
\<close>

theorem GetDependencies_terminates_length_witness:
  "\<exists>k xs. (\<forall>fuel\<ge>k. GetDependencies fuel ladder 5 = Inr xs)
       \<and> finite {r. r \<noteq> [] \<and> (\<exists>m. dep_path ladder 5 r m)}
       \<and> length xs = card {r. r \<noteq> [] \<and> (\<exists>m. dep_path ladder 5 r m)}
       \<and> length xs = 62"
proof -
  from GetDependencies_terminates_length [OF ladder_wellformed, of 5]
  obtain k xs where k: "\<forall>fuel\<ge>k. GetDependencies fuel ladder 5 = Inr xs"
    and fin: "finite {r. r \<noteq> [] \<and> (\<exists>m. dep_path ladder 5 r m)}"
    and len: "length xs = card {r. r \<noteq> [] \<and> (\<exists>m. dep_path ladder 5 r m)}"
    by (elim exE conjE)
  from ladder_run obtain ys where ys: "GetDependencies 6 ladder 5 = Inr ys" "length ys = 62"
    by (cases "GetDependencies 6 ladder 5") auto
  from ys(1) have "walk 6 (upstream ladder) 5 = Inr ys"
    by (simp add: GetDependencies_walk)
  then have "walk (max k 6) (upstream ladder) 5 = Inr ys"
    by (rule walk_mono) simp
  then have "GetDependencies (max k 6) ladder 5 = Inr ys"
    by (simp add: GetDependencies_walk)
  moreover from k have "GetDependencies (max k 6) ladder 5 = Inr xs" by simp
  ultimately have "xs = ys" by simp
  with k fin len ys(2) show ?thesis
    by (intro exI [where x = k] exI [where x = xs]) simp
qed

text \<open>
  The claim as stated fails on the ladder, a finite acyclic graph with 10 edges and longest
  path 5: \<^verbatim>\<open>GetDependencies\<close> of its last node returns 62 entries, more than 10 \<times> 5.
\<close>

theorem GetDependencies_bound_counterexample:
  "finite (dep_rel ladder) \<and> acyclic (dep_rel ladder)
   \<and> map_sum id length (GetDependencies 6 ladder 5) = Inr 62
   \<and> card (graph_edges ladder) = 10 \<and> longest_path ladder = 5
   \<and> \<not> (\<exists>xs. GetDependencies 6 ladder 5 = Inr xs
            \<and> length xs \<le> card (graph_edges ladder) * longest_path ladder)"
proof -
  have "\<not> (\<exists>xs. GetDependencies 6 ladder 5 = Inr xs
            \<and> length xs \<le> card (graph_edges ladder) * longest_path ladder)"
    using ladder_run by (auto simp: graph_edges_ladder longest_path_ladder)
  then show ?thesis
    using ladder_wellformed(1,2) ladder_run
    by (simp add: graph_edges_ladder longest_path_ladder)
qed

text \<open>
  Claim C4. Every call recorded during \<^verbatim>\<open>InvalidateCache(node, start_range, end_range)\<close>
  carries exactly the two arguments of the outermost call: the calls added to the record all
  have the range \<open>(start_range, end_range)\<close>.
\<close>

theorem InvalidateCache_same_range:
  assumes "InvalidateCache fuel n start_range end_range w = Inr w'"
  shows "\<exists>new. calls w' = calls w @ new \<and> (\<forall>c \<in> set new. snd c = (start_range, end_range))"
proof -
  from assms obtain xs where "w' = w\<lparr>calls := calls w @ tag_calls start_range end_range xs\<rparr>"
    by (cases "walk fuel (downstream (heap w)) n") (auto simp: InvalidateCache_walk)
  then have "calls w' = calls w @ tag_calls start_range end_range xs" by simp
  moreover have "\<forall>c \<in> set (tag_calls start_range end_range xs). snd c = (start_range, end_range)"
    by (auto simp: tag_calls_def)
  ultimately show ?thesis by blast
qed

text \<open>
  The diamond, invalidated at A = 0 with the range from 1/2 to 3.
\<close>

theorem InvalidateCache_same_range_witness:
  "\<exists>w' new. InvalidateCache 3 0 (1/2) 3 \<lparr>heap = diamond, calls = []\<rparr> = Inr w'
     \<and> calls w' = calls \<lparr>heap = diamond, calls = []\<rparr> @ new
     \<and> (\<forall>c \<in> set new. snd c = (1/2, 3)) \<and> length new = 4"
proof -
  from InvalidateCache_same_range [OF InvalidateCache_diamond]
  obtain new where
    new: "calls \<lparr>heap = diamond, calls = [(1, 1/2, 3), (3, 1/2, 3), (2, 1/2, 3), (3, 1/2, 3)]\<rparr>
            = calls \<lparr>heap = diamond, calls = []\<rparr> @ new"
    and rng: "\<forall>c \<in> set new. snd c = (1/2, 3)"
    by (elim exE conjE)
  from new [symmetric] have "length new = 4" by simp
  with InvalidateCache_diamond new rng show ?thesis
    by (intro exI [where x = "\<lparr>heap = diamond,
          calls = [(1, 1/2, 3), (3, 1/2, 3), (2, 1/2, 3), (3, 1/2, 3)]\<rparr>"]
        exI [where x = new] conjI)
qed

text \<open>
  Claim C5. \<^verbatim>\<open>InvalidateCache\<close> on a node whose Output parameters have no edges returns at once
  and issues no call: the world, and with it the record of calls, is returned as it was.
\<close>

theorem InvalidateCache_leaf:
  assumes "\<forall>p \<in> set (parameters (heap w) n). ptype (heap w) p = kOutput \<longrightarrow> pedges (heap w) p = []"
  shows "InvalidateCache (Suc fuel) n start_range end_range w = Inr w"
  using downstream_leaf [OF assms]
  by (simp add: InvalidateCache_walk tag_calls_def)

text \<open>
  The last node of the ladder has an Output parameter, 17, with no edge.
\<close>

theorem InvalidateCache_leaf_witness:
  "InvalidateCache (Suc 0) 5 0 1 \<lparr>heap = ladder, calls = []\<rparr> = Inr \<lparr>heap = ladder, calls = []\<rparr>
   \<and> parameters ladder 5 = [15, 16, 17] \<and> ptype ladder 17 = kOutput \<and> pedges ladder 17 = []"
proof -
  have "\<forall>p \<in> set (parameters (heap \<lparr>heap = ladder, calls = []\<rparr>) 5).
          ptype (heap \<lparr>heap = ladder, calls = []\<rparr>) p = kOutput \<longrightarrow>
          pedges (heap \<lparr>heap = ladder, calls = []\<rparr>) p = []"
    by (simp add: parameters_def ladder_def)
  from InvalidateCache_leaf [OF this, of 0 0 1] show ?thesis
    by (simp add: parameters_def ladder_def)
qed

text \<open>
  Claim C6. In a build with assertions, \<^verbatim>\<open>AddParameter\<close> stops with a failed assertion exactly
  when the node already has a parameter with the id of the one being added
  (\<^verbatim>\<open>HasParamWithID\<close> is true exactly then); and when it returns, parameter ids that were unique
  within every node are still unique within every node.
\<close>

theorem AddParameter_asserts_unique_id:
  "(AddParameter True g n p = Inl AssertionFailed \<longleftrightarrow> HasParamWithID g n (pid g p))
   \<and> (HasParamWithID g n i \<longleftrightarrow> (\<exists>q \<in> set (parameters g n). pid g q = i))
   \<and> (AddParameter True g n p = Inr g' \<and> (\<forall>m. distinct (map (pid g) (parameters g m)))
        \<longrightarrow> (\<forall>m. distinct (map (pid g') (parameters g' m))))"
proof (intro conjI impI allI)
  show "AddParameter True g n p = Inl AssertionFailed \<longleftrightarrow> HasParamWithID g n (pid g p)"
    by (simp add: AddParameter_def)
  show "HasParamWithID g n i \<longleftrightarrow> (\<exists>q \<in> set (parameters g n). pid g q = i)"
    by (simp add: HasParamWithID_def has_id_loop_iff)
next
  fix m
  assume h: "AddParameter True g n p = Inr g' \<and> (\<forall>m. distinct (map (pid g) (parameters g m)))"
  then have "\<not> HasParamWithID g n (pid g p)" and "g' = setParent g p n"
    by (auto simp: AddParameter_def split: if_splits)
  with h setParent_unique_ids [of g n p m]
  show "distinct (map (pid g') (parameters g' m))" by simp
qed

text \<open>
  In the chain, adding A's output (id ``out'') to B, which has an ``out'' already, fails the
  assertion; adding C's input (id ``in'') to A succeeds and keeps the ids of A distinct.
\<close>

theorem AddParameter_asserts_unique_id_witness:
  "AddParameter True chain 1 0 = Inl AssertionFailed \<and> HasParamWithID chain 1 (pid chain 0)
   \<and> AddParameter True chain 0 3 = Inr (setParent chain 3 0)
   \<and> parameters (setParent chain 3 0) 0 = [0, 3]
   \<and> distinct (map (pid (setParent chain 3 0)) (parameters (setParent chain 3 0) 0))"
proof -
  have dup: "HasParamWithID chain 1 (pid chain 0)"
    by (simp add: HasParamWithID_def parameters_def chain_def)
  have ok: "AddParameter True chain 0 3 = Inr (setParent chain 3 0)"
    by (simp add: AddParameter_def HasParamWithID_def parameters_def chain_def)
  have ps: "parameters (setParent chain 3 0) 0 = [0, 3]"
    by (simp add: setParent_def parameters_def chain_def)
  from AddParameter_asserts_unique_id [of chain 1 0 "''out''" "setParent chain 3 0"] dup
  have a: "AddParameter True chain 1 0 = Inl AssertionFailed" by simp
  from AddParameter_asserts_unique_id [of chain 0 3 "''out''" "setParent chain 3 0"] ok chain_unique_ids
  have "\<forall>m. distinct (map (pid (setParent chain 3 0)) (parameters (setParent chain 3 0) m))"
    by blast
  then have "distinct (map (pid (setParent chain 3 0)) (parameters (setParent chain 3 0) 0))"
    by (rule spec)
  with a dup ok ps show ?thesis by (intro conjI)
qed

text \<open>
  Claim C7. \<^verbatim>\<open>XMLConnectNodes\<close> always returns, and the edges it creates are exactly those of
  the descriptors whose source token resolves in \<open>node_ptrs\<close>, in the order of the batch: a
  descriptor whose token is absent adds nothing and does not stop the others.
\<close>

theorem XMLConnectNodes_skips_unresolved:
  "edges_created (XMLConnectNodes d st) =
     edges_created st @ concat (map (\<lambda>con. case node_ptrs d (output_node con) of
                                         None \<Rightarrow> []
                                       | Some out \<Rightarrow> [(out, output_name con, input con)])
                                  (desired_connections d))"
  by (simp add: XMLConnectNodes_def connect_loop_edges)

text \<open>
  The example batch: the second descriptor names the token 99, which nobody registered; the
  first and the third are connected.
\<close>

theorem XMLConnectNodes_skips_unresolved_witness:
  "edges_created (XMLConnectNodes batch \<lparr>edges_created = [], command = Some []\<rparr>) =
     [(2, ''out'', ''blur.in''), (1, ''out'', ''mix.blend'')]
   \<and> node_ptrs batch 99 = None"
  using XMLConnectNodes_skips_unresolved [of batch "\<lparr>edges_created = [], command = Some []\<rparr>"]
  by (simp add: batch_def register_node_def)

text \<open>
  Claim C8. When a token is registered twice, the node registered later is the one every
  lookup returns from then on (until the token is registered again), and the one a descriptor
  naming that token is connected to.
\<close>

theorem node_ptrs_last_registration_wins:
  assumes "tok \<notin> fst ` set later"
  shows "node_ptrs (register_all d (earlier @ (tok, n1) # between @ (tok, n2) # later)) tok = Some n2
       \<and> edges_created
           (XMLConnectNodes
              (register_all d (earlier @ (tok, n1) # between @ (tok, n2) # later)
                 \<lparr>desired_connections := [\<lparr>input = i, output_node = tok, output_name = out\<rparr>]\<rparr>) st)
         = edges_created st @ [(n2, out, i)]"
proof -
  have "node_ptrs (register_all d (earlier @ (tok, n1) # between @ (tok, n2) # later)) tok = Some n2"
    using assms by (simp add: register_all_append register_all_other register_node_def)
  then show ?thesis by (simp add: XMLConnectNodes_def)
qed

text \<open>
  In the example batch the token 7 is registered for node 0 and later for node 2.
\<close>

theorem node_ptrs_last_registration_wins_witness:
  "node_ptrs batch 7 = Some 2
   \<and> edges_created
       (XMLConnectNodes
          (batch\<lparr>desired_connections := [\<lparr>input = ''blur.in'', output_node = 7, output_name = ''out''\<rparr>]\<rparr>)
          \<lparr>edges_created = [], command = None\<rparr>)
     = [(2, ''out'', ''blur.in'')]"
proof -
  have "(7 :: quintptr) \<notin> fst ` set []" by simp
  from node_ptrs_last_registration_wins
         [OF this, of _ "[]" 0 "[(8, 1)]" 2 "''blur.in''" "''out''" "\<lparr>edges_created = [], command = None\<rparr>"]
  show ?thesis by (simp add: batch_def)
qed

text \<open>
  Claim C9. \<^verbatim>\<open>InvalidateCache\<close> changes nothing in the store: when it returns, the store is the
  one it started from, so every node has the parameters and every parameter the edges it had.
  Only the record of calls grows.
\<close>

theorem InvalidateCache_frame:
  assumes "InvalidateCache fuel n start_range end_range w = Inr w'"
  shows "heap w' = heap w
       \<and> (\<forall>m. parameters (heap w') m = parameters (heap w) m)
       \<and> (\<forall>p. pedges (heap w') p = pedges (heap w) p)"
proof -
  from assms obtain xs where "w' = w\<lparr>calls := calls w @ tag_calls start_range end_range xs\<rparr>"
    by (cases "walk fuel (downstream (heap w)) n") (auto simp: InvalidateCache_walk)
  then show ?thesis by simp
qed

text \<open>
  The diamond, invalidated at A = 0.
\<close>

theorem InvalidateCache_frame_witness:
  "\<exists>w'. InvalidateCache 3 0 (1/2) 3 \<lparr>heap = diamond, calls = []\<rparr> = Inr w'
     \<and> heap w' = diamond \<and> calls w' \<noteq> []"
proof -
  from InvalidateCache_frame [OF InvalidateCache_diamond]
  have "heap \<lparr>heap = diamond, calls = [(1, 1/2, 3), (3, 1/2, 3), (2, 1/2, 3), (3, 1/2, 3)]\<rparr>
          = heap \<lparr>heap = diamond, calls = []\<rparr>"
    by (elim conjE)
  with InvalidateCache_diamond show ?thesis
    by (intro exI [where x = "\<lparr>heap = diamond,
          calls = [(1, 1/2, 3), (3, 1/2, 3), (2, 1/2, 3), (3, 1/2, 3)]\<rparr>"]) simp
qed

text \<open>
  Claim C10. The list \<^verbatim>\<open>GetDependenciesInternal\<close> produces is a pre-order listing: whatever
  was in the list, followed, for each directly connected upstream node \<open>m\<close> in the order of the
  loops, by \<open>m\<close> itself and then immediately by the whole dependency listing \<open>d\<close> of \<open>m\<close>. For a
  chain A \<rightarrow> B \<rightarrow> C, \<^verbatim>\<open>GetDependencies(C)\<close> is exactly \<open>[B, A]\<close>.
\<close>

theorem GetDependencies_preorder:
  "(GetDependenciesInternal (Suc fuel) g n list = Inr out \<longrightarrow>
      (\<exists>ms ds. upstream g n = map Some ms
         \<and> list_all2 (\<lambda>m d. GetDependencies fuel g m = Inr d) ms ds
         \<and> out = list @ concat (map2 (#) ms ds)))
   \<and> (upstream g' c = [Some b] \<and> upstream g' b = [Some a] \<and> upstream g' a = [] \<longrightarrow>
      (\<forall>k\<ge>3. GetDependencies k g' c = Inr [b, a]))"
proof (intro conjI impI allI)
  assume "GetDependenciesInternal (Suc fuel) g n list = Inr out"
  then obtain xs where xs: "walk_list (walk fuel (upstream g)) (upstream g n) = Inr xs"
    and out: "out = list @ xs"
    by (cases "walk_list (walk fuel (upstream g)) (upstream g n)")
       (auto simp: GetDependenciesInternal_walk)
  from walk_list_blocks [OF xs] out
  show "\<exists>ms ds. upstream g n = map Some ms
         \<and> list_all2 (\<lambda>m d. GetDependencies fuel g m = Inr d) ms ds
         \<and> out = list @ concat (map2 (#) ms ds)"
    by (auto simp: GetDependencies_walk)
next
  fix k :: nat
  assume "upstream g' c = [Some b] \<and> upstream g' b = [Some a] \<and> upstream g' a = []" "3 \<le> k"
  then show "GetDependencies k g' c = Inr [b, a]"
    by (simp add: GetDependencies_walk walk_chain)
qed

text \<open>
  The diamond at D = 3, starting from a list that holds 7 already; and the example chain.
\<close>

theorem GetDependencies_preorder_witness:
  "(\<exists>ms ds. upstream diamond 3 = map Some ms
       \<and> list_all2 (\<lambda>m d. GetDependencies 2 diamond m = Inr d) ms ds
       \<and> [7, 1, 0, 2, 0] = [7] @ concat (map2 (#) ms ds))
   \<and> GetDependenciesInternal 3 diamond 3 [7] = Inr [7, 1, 0, 2, 0]
   \<and> GetDependencies 3 chain 2 = Inr [1, 0]"
proof -
  have run: "GetDependenciesInternal (Suc 2) diamond 3 [7] = Inr [7, 1, 0, 2, 0]"
    by (simp add: GetDependenciesInternal_walk upstream_diamond eval_nat_numeral)
  have ch: "upstream chain 2 = [Some 1] \<and> upstream chain 1 = [Some 0] \<and> upstream chain 0 = []"
    by (simp add: upstream_chain)
  have "(3::nat) \<le> 3" by simp
  from GetDependencies_preorder [of 2 diamond 3 "[7]" "[7, 1, 0, 2, 0]" chain 2 1 0] run ch this
  show ?thesis by (simp add: eval_nat_numeral)
qed

end
